theory Spec2Isabelle
  imports Main "HOL-Library.Multiset"
begin

section \<open>Python strings\<close>

text \<open>
  A Python \<open>str\<close> is a sequence of Unicode code points. Several reference labels
  contain letters beyond ASCII, and \<open>str.splitlines\<close> and \<open>str.strip\<close> react to code
  points beyond Latin-1 (U+2028, U+3000, ...), so a string is a list of code points,
  not a list of 8-bit characters.
\<close>

type_synonym str = "nat list"

definition ustr :: "string \<Rightarrow> str" where
  "ustr s = map of_char s"

text \<open>
  \<open>str.isspace\<close> on one code point, the test \<open>str.strip()\<close> applies: the code points
  U+0009..U+000D, U+001C..U+001F, U+0020, U+0085, U+00A0, U+1680, U+2000..U+200A,
  U+2028, U+2029, U+202F, U+205F, U+3000.
\<close>

definition isspace :: "nat \<Rightarrow> bool" where
  "isspace c =
     ((9 \<le> c \<and> c \<le> 13) \<or> (28 \<le> c \<and> c \<le> 31) \<or> c = 32 \<or> c = 133 \<or> c = 160
      \<or> c = 5760 \<or> (8192 \<le> c \<and> c \<le> 8202) \<or> c = 8232 \<or> c = 8233 \<or> c = 8239
      \<or> c = 8287 \<or> c = 12288)"

text \<open>
  The line boundaries of \<open>str.splitlines\<close>: \<open>\n\<close>, \<open>\v\<close>, \<open>\f\<close>, \<open>\r\<close>,
  U+001C..U+001E, U+0085, U+2028, U+2029 (and \<open>\r\n\<close>, read as one boundary).
\<close>

definition islinebreak :: "nat \<Rightarrow> bool" where
  "islinebreak c =
     ((10 \<le> c \<and> c \<le> 13) \<or> (28 \<le> c \<and> c \<le> 30) \<or> c = 133 \<or> c = 8232 \<or> c = 8233)"

text \<open>
  \<open>s.splitlines()\<close>, as the scanning loop of the interpreter: \<open>cur\<close> holds the
  characters of the line being read. A line ends at a line boundary (and may be empty)
  or at the end of the text (and then holds at least one character), so a text that
  ends in a line boundary has no empty last line.
\<close>

fun splitlines_from :: "str \<Rightarrow> str \<Rightarrow> str list" where
  "splitlines_from cur [] = (if cur = [] then [] else [cur])"
| "splitlines_from cur (c # cs) =
     (if islinebreak c then
        cur # (case cs of
                 [] \<Rightarrow> splitlines_from [] cs
               | d # ds \<Rightarrow> if c = 13 \<and> d = 10 then splitlines_from [] ds
                          else splitlines_from [] cs)
      else splitlines_from (cur @ [c]) cs)"

definition splitlines :: "str \<Rightarrow> str list" where
  "splitlines s = splitlines_from [] s"

text \<open>\<open>s.strip()\<close>: leading and trailing whitespace removed.\<close>

definition strip :: "str \<Rightarrow> str" where
  "strip s = rev (dropWhile isspace (rev (dropWhile isspace s)))"

text \<open>\<open>s.startswith(p)\<close>.\<close>

definition startswith :: "str \<Rightarrow> str \<Rightarrow> bool" where
  "startswith s p = (take (length p) s = p)"

section \<open>collections.Counter\<close>

text \<open>
  A \<open>Counter\<close> is a dict from elements to counts, in insertion order. Reading a
  missing element gives 0; \<open>Counter(xs)\<close> adds 1 to the count of each element of \<open>xs\<close>
  in turn; two counters are equal when the counts of all the elements of either agree.
\<close>

type_synonym 'a counter = "('a \<times> nat) list"

definition counter_get :: "'a counter \<Rightarrow> 'a \<Rightarrow> nat" where
  "counter_get c e = (case map_of c e of None \<Rightarrow> 0 | Some n \<Rightarrow> n)"

fun counter_set :: "'a counter \<Rightarrow> 'a \<Rightarrow> nat \<Rightarrow> 'a counter" where
  "counter_set [] e n = [(e, n)]"
| "counter_set ((e', n') # c) e n =
     (if e' = e then (e, n) # c else (e', n') # counter_set c e n)"

definition Counter :: "'a list \<Rightarrow> 'a counter" where
  "Counter xs = foldl (\<lambda>c e. counter_set c e (counter_get c e + 1)) [] xs"

definition Counter_eq :: "'a counter \<Rightarrow> 'a counter \<Rightarrow> bool" where
  "Counter_eq a b =
     list_all (\<lambda>e. counter_get a e = counter_get b e) (map fst a @ map fst b)"

section \<open>The verifier\<close>

text \<open>
  The reference list. The letters beyond ASCII are given by their code points:
  U+00DE (222), U+00ED (237), U+00E1 (225), U+00F6 (246), U+00F3 (243), U+00D3 (211).
\<close>

definition DWARVES :: "str list" where
  "DWARVES =
     [222 # ustr ''orinn'', ustr ''Balin'', ustr ''B'' @ 237 # ustr ''furr'',
      ustr ''B'' @ 225 # ustr ''furr'', ustr ''B'' @ 246 # ustr ''mburr'',
      ustr ''D'' @ 243 # ustr ''ri'', ustr ''Dvalinn'',
      ustr ''F'' @ 237 # ustr ''li'', ustr ''Gl'' @ 243 # ustr ''inn'',
      ustr ''K'' @ 237 # ustr ''li'', ustr ''N'' @ 243 # ustr ''ri'',
      222 # ustr ''rainn'', 211 # ustr ''ri'', ustr ''Gandalfr'']"

definition PREFIX :: str where
  "PREFIX = ustr ''Hi! My name is ''"

text \<open>
  The list comprehension of \<open>verify\<close>: the lines of the output, each stripped, those
  that are empty after stripping left out.
\<close>

definition lines_of :: "str \<Rightarrow> str list" where
  "lines_of output = map strip (filter (\<lambda>ln. strip ln \<noteq> []) (splitlines output))"

text \<open>
  The \<open>for\<close> loop of \<open>verify\<close>, with \<open>names\<close> as its state: \<open>None\<close> is the early
  \<open>return False\<close> at a line without the prefix.
\<close>

fun names_loop :: "str list \<Rightarrow> str list \<Rightarrow> str list option" where
  "names_loop [] names = Some names"
| "names_loop (ln # lns) names =
     (if \<not> startswith ln PREFIX then None
      else names_loop lns (names @ [drop (length PREFIX) ln]))"

definition verify :: "str \<Rightarrow> bool" where
  "verify output =
     (let lines = lines_of output in
      if length lines \<noteq> length DWARVES then False
      else case names_loop lines [] of
             None \<Rightarrow> False
           | Some names \<Rightarrow> Counter_eq (Counter names) (Counter DWARVES))"





section \<open>The top-level program\<close>

text \<open>
  \<open>subprocess.run\<close> either raises or returns the completed process with its return
  code and its decoded standard output. It raises when the command cannot be started
  (\<open>FileNotFoundError\<close>), when the timeout of 10 seconds expires (\<open>TimeoutExpired\<close>),
  on any other error (\<open>OtherException\<close>: the output cannot be decoded, ...), and also
  when the wait is interrupted (\<open>KeyboardInterrupt\<close>) or the interpreter is asked to
  exit (\<open>SystemExit\<close>). The first three are derived from \<open>Exception\<close>; the last two
  are derived from \<open>BaseException\<close> only.
\<close>

datatype run_exception =
  FileNotFoundError | TimeoutExpired | OtherException | KeyboardInterrupt | SystemExit

text \<open>\<open>isinstance(e, Exception)\<close>: what the clause \<open>except Exception\<close> catches.\<close>

fun is_Exception :: "run_exception \<Rightarrow> bool" where
  "is_Exception FileNotFoundError = True"
| "is_Exception TimeoutExpired = True"
| "is_Exception OtherException = True"
| "is_Exception KeyboardInterrupt = False"
| "is_Exception SystemExit = False"

datatype run_outcome = Raised run_exception | Completed int str

text \<open>
  What \<open>main\<close> does is a trace of events (a call of \<open>verify\<close> on a text, a \<open>print\<close>
  of one line) together with the way it ends: \<open>None\<close> when it returns, \<open>Some e\<close> when
  the exception \<open>e\<close> leaves it uncaught.
\<close>

datatype event = Verify str | Print string

definition main :: "run_outcome \<Rightarrow> event list \<times> run_exception option" where
  "main r =
     (case r of
        Raised e \<Rightarrow> if is_Exception e then ([Print ''No''], None) else ([], Some e)
      | Completed returncode stdout \<Rightarrow>
          if returncode \<noteq> 0 then ([Print ''No''], None)
          else ([Verify stdout, Print (if verify stdout then ''Yes'' else ''No'')], None))"

section \<open>Inputs and auxiliary notions\<close>

text \<open>
  A text in which each of the given lines is followed by a newline, and the output of
  a program that announces the given labels, one line \<open>Hi! My name is <label>\<close> each.
\<close>

definition text_of_lines :: "str list \<Rightarrow> str" where
  "text_of_lines ls = concat (map (\<lambda>l. l @ [10]) ls)"

definition announce :: "str list \<Rightarrow> str" where
  "announce labels = text_of_lines (map (\<lambda>l. PREFIX @ l) labels)"

definition no_linebreak :: "str \<Rightarrow> bool" where
  "no_linebreak l = list_all (\<lambda>c. \<not> islinebreak c) l"

text \<open>
  A string of whitespace only, the stripped lines of a list of lines that are not
  blank, and the cut of a text at every line boundary (\<open>\r\n\<close> is then two
  boundaries with an empty line between, and the text after the last boundary is
  always a line): the non-blank lines of a text are those of this simpler cut.
\<close>

definition blank :: "str \<Rightarrow> bool" where
  "blank s = list_all isspace s"

definition nonblank_stripped :: "str list \<Rightarrow> str list" where
  "nonblank_stripped ls = map strip (filter (\<lambda>ln. strip ln \<noteq> []) ls)"

fun cut_from :: "str \<Rightarrow> str \<Rightarrow> str list" where
  "cut_from cur [] = [cur]"
| "cut_from cur (c # cs) =
     (if islinebreak c then cur # cut_from [] cs else cut_from (cur @ [c]) cs)"

text \<open>
  One insertion of whitespace-only text (blank lines with their line boundaries):
  at the start of the text or right after a line boundary, or at the end of the text.
\<close>

inductive blank_insertion :: "str \<Rightarrow> str \<Rightarrow> bool" where
  at_line_start: "a = [] \<or> islinebreak (last a) \<Longrightarrow> blank w \<Longrightarrow> blank_insertion (a @ b) (a @ w @ b)"
| at_end: "blank w \<Longrightarrow> blank_insertion a (a @ w)"

section \<open>Counters and multisets\<close>

lemma counter_get_set:
  "counter_get (counter_set c e n) e' = (if e' = e then n else counter_get c e')"
  by (induction c e n rule: counter_set.induct) (auto simp: counter_get_def)

lemma keys_counter_set: "fst ` set (counter_set c e n) = insert e (fst ` set c)"
  by (induction c e n rule: counter_set.induct) auto

lemma foldl_counter_get:
  "counter_get (foldl (\<lambda>c e. counter_set c e (counter_get c e + 1)) c0 xs) e
     = counter_get c0 e + count (mset xs) e"
  by (induction xs arbitrary: c0) (auto simp: counter_get_set)

lemma foldl_counter_keys:
  "fst ` set (foldl (\<lambda>c e. counter_set c e (counter_get c e + 1)) c0 xs)
     = fst ` set c0 \<union> set xs"
  by (induction xs arbitrary: c0) (auto simp: keys_counter_set)

lemma counter_get_Counter: "counter_get (Counter xs) e = count (mset xs) e"
  unfolding Counter_def foldl_counter_get by (simp add: counter_get_def)

lemma keys_Counter: "fst ` set (Counter xs) = set xs"
  unfolding Counter_def foldl_counter_keys by simp

lemma Counter_eq_mset: "Counter_eq (Counter xs) (Counter ys) \<longleftrightarrow> mset xs = mset ys"
proof
  assume eq: "Counter_eq (Counter xs) (Counter ys)"
  show "mset xs = mset ys"
  proof (rule multiset_eqI)
    fix e
    show "count (mset xs) e = count (mset ys) e"
    proof (cases "e \<in> set xs \<union> set ys")
      case True
      then have "e \<in> set (map fst (Counter xs) @ map fst (Counter ys))"
        using keys_Counter [of xs] keys_Counter [of ys] by simp
      with eq have "counter_get (Counter xs) e = counter_get (Counter ys) e"
        unfolding Counter_eq_def list_all_iff by blast
      then show ?thesis by (simp add: counter_get_Counter)
    next
      case False
      then have "count (mset xs) e = 0" "count (mset ys) e = 0"
        by (simp_all add: count_eq_zero_iff)
      then show ?thesis by (simp only:)
    qed
  qed
next
  assume "mset xs = mset ys"
  then show "Counter_eq (Counter xs) (Counter ys)"
    by (simp add: Counter_eq_def list_all_iff counter_get_Counter)
qed

lemma names_loop_eq:
  "names_loop lns names =
     (if list_all (\<lambda>ln. startswith ln PREFIX) lns
      then Some (names @ map (drop (length PREFIX)) lns) else None)"
  by (induction lns arbitrary: names) auto

lemma length_PREFIX: "length PREFIX = 15"
  by (simp add: PREFIX_def ustr_def)

lemma length_DWARVES: "length DWARVES = 14"
  by (simp add: DWARVES_def)

lemma verify_iff:
  "verify s \<longleftrightarrow>
     length (lines_of s) = length DWARVES
     \<and> list_all (\<lambda>ln. startswith ln PREFIX) (lines_of s)
     \<and> mset (map (drop (length PREFIX)) (lines_of s)) = mset DWARVES"
  by (auto simp: verify_def Let_def names_loop_eq Counter_eq_mset)

section \<open>Stripping and splitting\<close>

lemma islinebreak_isspace: "islinebreak c \<Longrightarrow> isspace c"
  by (auto simp: islinebreak_def isspace_def)

lemma strip_Nil [simp]: "strip [] = []"
  by (simp add: strip_def)

lemma strip_eq_Nil_iff: "strip s = [] \<longleftrightarrow> blank s"
proof
  assume "strip s = []"
  then have "dropWhile isspace (rev (dropWhile isspace s)) = []"
    by (simp add: strip_def)
  then have "\<forall>x \<in> set (dropWhile isspace s). isspace x"
    by (simp add: dropWhile_eq_Nil_conv)
  moreover have "dropWhile isspace s \<noteq> [] \<Longrightarrow> \<not> isspace (hd (dropWhile isspace s))"
    by (rule hd_dropWhile)
  ultimately have "dropWhile isspace s = []"
    by (metis hd_in_set)
  then show "blank s"
    by (simp add: blank_def list_all_iff dropWhile_eq_Nil_conv)
next
  assume "blank s"
  then have "dropWhile isspace s = []"
    by (simp add: blank_def list_all_iff dropWhile_eq_Nil_conv)
  then show "strip s = []"
    unfolding strip_def by (simp only: rev.simps dropWhile.simps)
qed

lemma strip_blank_append: "blank w \<Longrightarrow> strip (w @ s) = strip s"
  by (simp add: strip_def blank_def list_all_iff dropWhile_append2)

lemma strip_append_blank: 
  assumes "blank w" shows "strip (s @ w) = strip s"
proof (cases "blank s")
  case True
  with assms have "blank (s @ w)" by (simp add: blank_def)
  with True show ?thesis by (simp add: strip_eq_Nil_iff [symmetric])
next
  case False
  then obtain x where "x \<in> set s" "\<not> isspace x"
    by (auto simp: blank_def list_all_iff)
  then have "dropWhile isspace (s @ w) = dropWhile isspace s @ w"
    by (simp add: dropWhile_append1)
  moreover from assms have "dropWhile isspace (rev w @ y) = dropWhile isspace y" for y
    by (intro dropWhile_append2) (simp add: blank_def list_all_iff)
  ultimately show ?thesis
    by (simp only: strip_def rev_append)
qed

lemma strip_id:
  assumes "s \<noteq> []" "\<not> isspace (hd s)" "\<not> isspace (last s)"
  shows "strip s = s"
proof -
  from assms have "dropWhile isspace s = s"
    by (cases s) simp_all
  moreover from assms have "dropWhile isspace (rev s) = rev s"
    by (cases "rev s") (simp_all add: last_rev [symmetric] hd_rev)
  ultimately show ?thesis by (simp add: strip_def)
qed

lemma strip_ends:
  assumes "strip s \<noteq> []"
  shows "\<not> isspace (hd (strip s))" and "\<not> isspace (last (strip s))"
proof -
  let ?d = "dropWhile isspace (rev (dropWhile isspace s))"
  from assms have ne: "?d \<noteq> []" by (simp add: strip_def)
  then have "\<not> isspace (hd ?d)" by (rule hd_dropWhile)
  with ne show "\<not> isspace (last (strip s))"
    by (simp add: strip_def last_rev)
  have d: "dropWhile isspace s \<noteq> []"
  proof
    assume "dropWhile isspace s = []"
    then have "?d = []" by (simp only: rev.simps dropWhile.simps)
    with ne show False ..
  qed
  then have h: "\<not> isspace (hd (dropWhile isspace s))" by (rule hd_dropWhile)
  then have "\<not> isspace (last (rev (dropWhile isspace s)))"
    using d by (simp add: last_rev)
  obtain n where "?d = drop n (rev (dropWhile isspace s))"
    by (metis dropWhile_eq_drop)
  with ne have "last ?d = last (rev (dropWhile isspace s))"
    by (simp add: last_drop)
  then have "hd (strip s) = hd (dropWhile isspace s)"
    using ne d by (simp add: strip_def hd_rev last_rev)
  with h show "\<not> isspace (hd (strip s))" by simp
qed


lemma blank_Nil [simp]: "blank []"
  by (simp add: blank_def)

lemma blank_append [simp]: "blank (a @ b) \<longleftrightarrow> blank a \<and> blank b"
  by (simp add: blank_def)

lemma blank_single [simp]: "blank [c] \<longleftrightarrow> isspace c"
  by (simp add: blank_def)

lemma nonblank_stripped_Nil [simp]: "nonblank_stripped [] = []"
  by (simp add: nonblank_stripped_def)

lemma nonblank_stripped_Cons:
  "nonblank_stripped (l # ls) = (if blank l then [] else [strip l]) @ nonblank_stripped ls"
  by (simp add: nonblank_stripped_def strip_eq_Nil_iff)

lemma nonblank_stripped_append [simp]:
  "nonblank_stripped (xs @ ys) = nonblank_stripped xs @ nonblank_stripped ys"
  by (simp add: nonblank_stripped_def)

lemma nonblank_stripped_blank:
  "list_all blank ls \<Longrightarrow> nonblank_stripped ls = []"
  by (induction ls) (simp_all add: nonblank_stripped_Cons)

lemma lines_of_nonblank_stripped: "lines_of s = nonblank_stripped (splitlines s)"
  by (simp add: lines_of_def nonblank_stripped_def)

lemma cut_from_not_Nil [simp]: "cut_from cur s \<noteq> []"
  by (induction s arbitrary: cur) simp_all

lemma splitlines_from_cut:
  "nonblank_stripped (splitlines_from cur s) = nonblank_stripped (cut_from cur s)"
proof (induction cur s rule: splitlines_from.induct)
  case (1 cur)
  then show ?case by (simp add: nonblank_stripped_Cons)
next
  case (2 cur c cs)
  show ?case
  proof (cases "islinebreak c")
    case False
    with 2 show ?thesis by simp
  next
    case lb: True
    show ?thesis
    proof (cases cs)
      case Nil
      with lb 2 show ?thesis by (simp add: nonblank_stripped_Cons)
    next
      case (Cons d ds)
      show ?thesis
      proof (cases "c = 13 \<and> d = 10")
        case True
        then have "islinebreak d" by (simp add: islinebreak_def)
        with True lb Cons "2.IH"(2) [OF lb Cons True] show ?thesis
          by (simp add: nonblank_stripped_Cons)
      next
        case False
        with lb Cons "2.IH"(3) [OF lb Cons False] show ?thesis
          by (auto simp add: nonblank_stripped_Cons)
      qed
    qed
  qed
qed

lemma lines_of_cut: "lines_of s = nonblank_stripped (cut_from [] s)"
  by (simp add: lines_of_nonblank_stripped splitlines_def splitlines_from_cut)

lemma cut_from_append:
  "cut_from cur (a @ b) = butlast (cut_from cur a) @ cut_from (last (cut_from cur a)) b"
  by (induction a arbitrary: cur) simp_all

lemma cut_from_cur:
  "cut_from cur s = (cur @ hd (cut_from [] s)) # tl (cut_from [] s)"
proof (induction s arbitrary: cur)
  case Nil
  then show ?case by simp
next
  case (Cons c cs)
  show ?case
  proof (cases "islinebreak c")
    case True
    then show ?thesis by simp
  next
    case False
    have "cut_from (cur @ [c]) cs = ((cur @ [c]) @ hd (cut_from [] cs)) # tl (cut_from [] cs)"
      by (rule Cons.IH)
    moreover have "cut_from [c] cs = ([c] @ hd (cut_from [] cs)) # tl (cut_from [] cs)"
      by (rule Cons.IH)
    ultimately show ?thesis using False by simp
  qed
qed

lemma cut_from_blank_cur:
  assumes "blank w"
  shows "nonblank_stripped (cut_from (w @ cur) s) = nonblank_stripped (cut_from cur s)"
proof -
  have "cut_from (w @ cur) s = (w @ cur @ hd (cut_from [] s)) # tl (cut_from [] s)"
    using cut_from_cur [of "w @ cur" s] by simp
  moreover have "cut_from cur s = (cur @ hd (cut_from [] s)) # tl (cut_from [] s)"
    by (rule cut_from_cur)
  ultimately show ?thesis
    using assms by (simp add: nonblank_stripped_Cons strip_blank_append)
qed

lemma cut_from_blank:
  "blank w \<Longrightarrow> nonblank_stripped (cut_from l w) = nonblank_stripped [l]"
proof (induction w arbitrary: l)
  case Nil
  then show ?case by simp
next
  case (Cons c w)
  then have c: "isspace c" and w: "blank w" by (simp_all add: blank_def)
  show ?case
  proof (cases "islinebreak c")
    case True
    with Cons.IH [OF w, of "[]"] show ?thesis
      by (simp add: nonblank_stripped_Cons)
  next
    case False
    have "blank (l @ [c]) = blank l" using c by simp
    moreover have "strip (l @ [c]) = strip l"
      using c by (simp add: strip_append_blank)
    ultimately show ?thesis
      using False Cons.IH [OF w, of "l @ [c]"] by (simp add: nonblank_stripped_Cons)
  qed
qed

text \<open>Whitespace before a line boundary or before the end of the text is invisible.\<close>

lemma cut_from_blank_before_break:
  "blank w \<Longrightarrow> islinebreak t \<Longrightarrow>
     nonblank_stripped (cut_from l (w @ t # b)) = nonblank_stripped (cut_from l (t # b))"
proof (induction w arbitrary: l)
  case Nil
  then show ?case by simp
next
  case (Cons c w)
  then have c: "isspace c" and w: "blank w" by (simp_all add: blank_def)
  show ?case
  proof (cases "islinebreak c")
    case True
    with Cons.IH [OF w Cons.prems(2), of "[]"] Cons.prems(2) show ?thesis
      by (simp add: nonblank_stripped_Cons)
  next
    case False
    have "blank (l @ [c]) = blank l" using c by simp
    moreover have "strip (l @ [c]) = strip l"
      using c by (simp add: strip_append_blank)
    ultimately show ?thesis
      using False Cons.IH [OF w Cons.prems(2), of "l @ [c]"] Cons.prems(2)
      by (simp add: nonblank_stripped_Cons)
  qed
qed

lemma nonblank_stripped_butlast_last:
  "ls \<noteq> [] \<Longrightarrow>
     nonblank_stripped (butlast ls) @ nonblank_stripped [last ls] = nonblank_stripped ls"
  by (metis nonblank_stripped_append append_butlast_last_id)

lemma lines_of_append_blank:
  assumes w: "blank w"
  shows "lines_of (a @ w) = lines_of a"
proof -
  have "nonblank_stripped (cut_from [] (a @ w))
      = nonblank_stripped (butlast (cut_from [] a))
        @ nonblank_stripped (cut_from (last (cut_from [] a)) w)"
    by (simp add: cut_from_append)
  also have "\<dots> = nonblank_stripped (butlast (cut_from [] a))
        @ nonblank_stripped [last (cut_from [] a)]"
    by (simp only: cut_from_blank [OF w])
  also have "\<dots> = nonblank_stripped (cut_from [] a)"
    by (rule nonblank_stripped_butlast_last) simp
  finally show ?thesis by (simp only: lines_of_cut)
qed

lemma lines_of_blank_before_break:
  assumes "blank w" "islinebreak t"
  shows "lines_of (a @ w @ t # b) = lines_of (a @ t # b)"
  using assms
  by (simp add: lines_of_cut cut_from_append [of _ a] cut_from_blank_before_break)

text \<open>After a line boundary, or at the start, the lines of the rest follow.\<close>

lemma last_cut_from_break:
  "islinebreak t \<Longrightarrow> last (cut_from cur (a @ [t])) = []"
  by (simp add: cut_from_append)

lemma lines_of_at_line_start:
  assumes "a = [] \<or> islinebreak (last a)"
  shows "lines_of (a @ b) = lines_of a @ lines_of b"
proof (cases "a = []")
  case True
  then show ?thesis by (simp add: lines_of_cut nonblank_stripped_Cons)
next
  case False
  with assms obtain a' t where a: "a = a' @ [t]" and t: "islinebreak t"
    by (metis append_butlast_last_id)
  have l: "last (cut_from [] a) = []"
    unfolding a using t by (rule last_cut_from_break)
  have "nonblank_stripped (cut_from [] (a @ b))
      = nonblank_stripped (butlast (cut_from [] a)) @ nonblank_stripped (cut_from [] b)"
    by (simp add: cut_from_append [of _ a] l)
  moreover have "nonblank_stripped (cut_from [] a)
      = nonblank_stripped (butlast (cut_from [] a) @ [last (cut_from [] a)])"
    by simp
  then have "nonblank_stripped (cut_from [] a) = nonblank_stripped (butlast (cut_from [] a))"
    unfolding l by (simp add: nonblank_stripped_Cons)
  ultimately show ?thesis by (simp add: lines_of_cut)
qed

lemma lines_of_blank: "blank w \<Longrightarrow> lines_of w = []"
  using lines_of_append_blank [of w "[]"] by (simp add: lines_of_cut nonblank_stripped_Cons)

lemma lines_of_blank_at_line_start:
  assumes "a = [] \<or> islinebreak (last a)" "blank w"
  shows "lines_of (a @ w @ b) = lines_of (a @ b)"
proof -
  have "nonblank_stripped (cut_from [] w) = []"
    using cut_from_blank [OF assms(2), of "[]"] by (simp add: nonblank_stripped_Cons)
  then have "nonblank_stripped (butlast (cut_from [] w))
      @ nonblank_stripped [last (cut_from [] w)] = []"
    by (simp only: nonblank_stripped_butlast_last [OF cut_from_not_Nil])
  then have b: "nonblank_stripped (butlast (cut_from [] w)) = []"
    and l: "blank (last (cut_from [] w))"
    by (simp_all add: nonblank_stripped_Cons split: if_splits)
  have "nonblank_stripped (cut_from (last (cut_from [] w)) b) = nonblank_stripped (cut_from [] b)"
    using cut_from_blank_cur [OF l, of "[]" b] by simp
  then have "lines_of (w @ b) = lines_of b"
    by (simp add: lines_of_cut cut_from_append [of _ w] b)
  then show ?thesis
    using lines_of_at_line_start [OF assms(1)] by simp
qed

section \<open>Texts of newline-terminated lines\<close>

lemma islinebreak_10: "islinebreak 10"
  by (simp add: islinebreak_def)

lemma splitlines_from_line:
  "no_linebreak l \<Longrightarrow> splitlines_from cur (l @ 10 # rest) = (cur @ l) # splitlines_from [] rest"
proof (induction l arbitrary: cur)
  case Nil
  then show ?case by (cases rest) (simp_all add: islinebreak_10)
next
  case (Cons c l)
  then show ?case by (simp add: no_linebreak_def)
qed

lemma splitlines_text_of_lines:
  "list_all no_linebreak ls \<Longrightarrow> splitlines (text_of_lines ls) = ls"
proof (induction ls)
  case Nil
  then show ?case by (simp add: splitlines_def text_of_lines_def)
next
  case (Cons l ls)
  then have "splitlines_from [] (l @ 10 # text_of_lines ls) = l # splitlines_from [] (text_of_lines ls)"
    using splitlines_from_line [of l "[]"] by simp
  with Cons show ?case by (simp add: splitlines_def text_of_lines_def)
qed

lemma lines_of_text_of_lines:
  "list_all no_linebreak ls \<Longrightarrow> lines_of (text_of_lines ls) = nonblank_stripped ls"
  by (simp add: lines_of_nonblank_stripped splitlines_text_of_lines)

lemma DWARVES_clean:
  "list_all (\<lambda>d. d \<noteq> [] \<and> list_all (\<lambda>c. \<not> isspace c) d) DWARVES"
  by (simp add: DWARVES_def ustr_def isspace_def)

lemma DWARVES_distinct: "distinct DWARVES"
  by (simp add: DWARVES_def ustr_def)

lemma PREFIX_clean: "list_all (\<lambda>c. \<not> islinebreak c) PREFIX" "\<not> isspace (hd PREFIX)" "PREFIX \<noteq> []"
  by (simp_all add: PREFIX_def ustr_def islinebreak_def isspace_def)

lemma PREFIX_not_blank [simp]: "\<not> blank PREFIX"
  by (simp add: PREFIX_def ustr_def blank_def isspace_def)

lemma startswith_PREFIX_append [simp]: "startswith (PREFIX @ l) PREFIX"
  by (simp add: startswith_def)

lemma drop_PREFIX_append [simp]: "drop (length PREFIX) (PREFIX @ l) = l"
  by simp

lemma label_line:
  assumes "d \<in> set DWARVES"
  shows "no_linebreak (PREFIX @ d)" and "strip (PREFIX @ d) = PREFIX @ d" and "\<not> blank (PREFIX @ d)"
proof -
  from assms DWARVES_clean have d: "d \<noteq> []" "list_all (\<lambda>c. \<not> isspace c) d"
    by (auto simp: list_all_iff)
  then have "list_all (\<lambda>c. \<not> islinebreak c) d"
    by (auto simp: list_all_iff dest: islinebreak_isspace)
  with PREFIX_clean(1) show "no_linebreak (PREFIX @ d)"
    by (simp add: no_linebreak_def)
  from d have "\<not> isspace (last d)" by (simp add: list_all_iff)
  with d(1) PREFIX_clean show s: "strip (PREFIX @ d) = PREFIX @ d"
    by (intro strip_id) simp_all
  show "\<not> blank (PREFIX @ d)"
    by simp
qed

lemma lines_of_announce:
  assumes "set ls \<subseteq> set DWARVES"
  shows "lines_of (announce ls) = map (\<lambda>l. PREFIX @ l) ls"
proof -
  have "list_all no_linebreak (map (\<lambda>l. PREFIX @ l) ls)"
    using assms label_line(1) by (auto simp: list_all_iff)
  then have "lines_of (announce ls) = nonblank_stripped (map (\<lambda>l. PREFIX @ l) ls)"
    unfolding announce_def by (rule lines_of_text_of_lines)
  also have "\<dots> = map (\<lambda>l. PREFIX @ l) ls"
    using assms
  proof (induction ls)
    case Nil
    then show ?case by simp
  next
    case (Cons l ls)
    then show ?case by (simp add: nonblank_stripped_Cons label_line)
  qed
  finally show ?thesis .
qed

lemma verify_announce:
  assumes "set ls \<subseteq> set DWARVES"
  shows "verify (announce ls) \<longleftrightarrow> mset ls = mset DWARVES"
proof -
  have "mset ls = mset DWARVES \<Longrightarrow> length ls = length DWARVES"
    by (rule mset_eq_length)
  then show ?thesis
    by (auto simp add: verify_iff lines_of_announce [OF assms] list_all_iff comp_def)
qed


lemma verify_mset_lines:
  "mset (lines_of a) = mset (lines_of b) \<Longrightarrow> verify a = verify b"
proof -
  assume eq: "mset (lines_of a) = mset (lines_of b)"
  then have "length (lines_of a) = length (lines_of b)"
    by (rule mset_eq_length)
  moreover from eq have "set (lines_of a) = set (lines_of b)"
    by (rule mset_eq_setD)
  moreover from eq have "mset (map (drop (length PREFIX)) (lines_of a))
      = mset (map (drop (length PREFIX)) (lines_of b))"
    by (metis mset_map)
  ultimately show ?thesis
    by (simp add: verify_iff list_all_iff)
qed

lemma mset_nonblank_stripped:
  "mset ls' = mset ls \<Longrightarrow> mset (nonblank_stripped ls') = mset (nonblank_stripped ls)"
  unfolding nonblank_stripped_def by (metis mset_filter mset_map)

lemma length_nonblank_stripped:
  "list_all (\<lambda>l. \<not> blank l) ls \<Longrightarrow> length (nonblank_stripped ls) = length ls"
  by (induction ls) (simp_all add: nonblank_stripped_Cons)

lemma verify_text_of_lines_length:
  assumes "list_all no_linebreak ls" "list_all (\<lambda>l. \<not> blank l) ls" "length ls \<noteq> length DWARVES"
  shows "\<not> verify (text_of_lines ls)"
  using assms by (simp add: verify_iff lines_of_text_of_lines length_nonblank_stripped)

lemma label_lines:
  assumes "set p \<subseteq> set DWARVES"
  shows "list_all no_linebreak (map (\<lambda>l. PREFIX @ l) p)"
    and "list_all (\<lambda>l. \<not> blank l) (map (\<lambda>l. PREFIX @ l) p)"
  using assms label_line(1) by (auto simp: list_all_iff)

section \<open>Lines, prefixes and labels\<close>

lemma stripped_line_in_lines_of:
  "l \<in> set (splitlines s) \<Longrightarrow> strip l \<noteq> [] \<Longrightarrow> strip l \<in> set (lines_of s)"
  by (simp add: lines_of_def)

lemma verify_line_startswith:
  "verify s \<Longrightarrow> l \<in> set (splitlines s) \<Longrightarrow> strip l \<noteq> [] \<Longrightarrow> startswith (strip l) PREFIX"
  using stripped_line_in_lines_of [of l s] by (simp add: verify_iff list_all_iff)

lemma lines_of_ends:
  assumes "ln \<in> set (lines_of s)"
  shows "ln \<noteq> []" and "\<not> isspace (last ln)"
proof -
  from assms obtain l where l: "ln = strip l" "strip l \<noteq> []"
    by (auto simp: lines_of_def)
  then show "ln \<noteq> []" by simp
  from l strip_ends(2) [of l] show "\<not> isspace (last ln)" by simp
qed

lemma last_PREFIX: "isspace (last PREFIX)"
  by (simp add: PREFIX_def ustr_def isspace_def)

lemma label_of_line:
  assumes "ln \<noteq> []" "\<not> isspace (last ln)" "startswith ln PREFIX"
  shows "drop (length PREFIX) ln \<noteq> []"
    and "last (drop (length PREFIX) ln) = last ln"
proof -
  from assms(3) have t: "take (length PREFIX) ln = PREFIX"
    by (simp add: startswith_def)
  have "ln = take (length PREFIX) ln @ drop (length PREFIX) ln" by simp
  with t have eq: "ln = PREFIX @ drop (length PREFIX) ln" by simp
  show ne: "drop (length PREFIX) ln \<noteq> []"
  proof
    assume "drop (length PREFIX) ln = []"
    with eq have "ln = PREFIX" by simp
    with assms(2) last_PREFIX show False by simp
  qed
  from ne have "last (PREFIX @ drop (length PREFIX) ln) = last (drop (length PREFIX) ln)"
    by simp
  with eq show "last (drop (length PREFIX) ln) = last ln" by simp
qed

lemma strip_PREFIX: "strip PREFIX = ustr ''Hi! My name is''"
  by (simp add: strip_def PREFIX_def ustr_def isspace_def)

lemma bare_prefix_line:
  assumes "blank w"
  shows "strip (PREFIX @ w) \<noteq> []" and "\<not> startswith (strip (PREFIX @ w)) PREFIX"
proof -
  have s: "strip (PREFIX @ w) = ustr ''Hi! My name is''"
    using assms by (simp add: strip_append_blank strip_PREFIX)
  show "strip (PREFIX @ w) \<noteq> []"
    unfolding s by (simp add: ustr_def)
  show "\<not> startswith (strip (PREFIX @ w)) PREFIX"
    unfolding s by (simp add: startswith_def PREFIX_def ustr_def)
qed

lemma verify_labels:
  assumes "verify s"
  shows "mset (map (drop (length PREFIX)) (lines_of s)) = mset DWARVES"
  using assms by (simp add: verify_iff)

lemma count_DWARVES: "d \<in> set DWARVES \<Longrightarrow> count (mset DWARVES) d = 1"
  using DWARVES_distinct by (simp add: distinct_count_atmost_1)

section \<open>Insertion of blank lines\<close>

lemma verify_cong_lines: "lines_of a = lines_of b \<Longrightarrow> verify a = verify b"
  by (simp add: verify_def)

lemma blank_insertion_lines: "blank_insertion s s' \<Longrightarrow> lines_of s' = lines_of s"
proof (induction rule: blank_insertion.induct)
  case (at_line_start a w b)
  then show ?case by (rule lines_of_blank_at_line_start)
next
  case (at_end w a)
  then show ?case by (rule lines_of_append_blank)
qed

lemma blank_insertions_lines: "rtranclp blank_insertion s s' \<Longrightarrow> lines_of s' = lines_of s"
  by (induction rule: rtranclp_induct) (simp_all add: blank_insertion_lines)

section \<open>Spaces around a label\<close>

lemma cut_from_no_linebreak: "no_linebreak l \<Longrightarrow> cut_from cur l = [cur @ l]"
  by (induction l arbitrary: cur) (simp_all add: no_linebreak_def)

lemma lines_of_line:
  assumes "no_linebreak l" "islinebreak t"
  shows "lines_of (l @ [t]) = nonblank_stripped [l]"
  using assms
  by (simp add: lines_of_cut cut_from_append [of _ l] cut_from_no_linebreak nonblank_stripped_Cons)

lemma lines_of_with_line:
  assumes a: "a = [] \<or> islinebreak (last a)" and l: "no_linebreak l" and t: "islinebreak t"
  shows "lines_of (a @ l @ t # b) = lines_of a @ nonblank_stripped [l] @ lines_of b"
proof -
  have "lines_of (a @ l @ t # b) = lines_of a @ lines_of (l @ t # b)"
    using a by (rule lines_of_at_line_start)
  moreover have "lines_of ((l @ [t]) @ b) = lines_of (l @ [t]) @ lines_of b"
    using t by (intro lines_of_at_line_start) simp
  ultimately show ?thesis
    using lines_of_line [OF l t] by simp
qed

lemma spaces_blank: "blank (replicate n 32)"
  by (simp add: blank_def list_all_iff isspace_def)

lemma DWARVES_no_space:
  assumes "d \<in> set DWARVES"
  shows "d \<noteq> []" and "\<not> isspace (hd d)" and "\<not> isspace (last d)" and "no_linebreak d"
proof -
  from assms DWARVES_clean have d: "d \<noteq> []" "\<forall>c \<in> set d. \<not> isspace c"
    by (auto simp: list_all_iff)
  then show "d \<noteq> []" "\<not> isspace (hd d)" "\<not> isspace (last d)" by simp_all
  from d show "no_linebreak d"
    by (auto simp: no_linebreak_def list_all_iff dest: islinebreak_isspace)
qed

lemma spaced_label_line:
  assumes d: "d \<in> set DWARVES"
  shows "no_linebreak (PREFIX @ replicate n 32 @ d)"
    and "strip (PREFIX @ replicate n 32 @ d) = PREFIX @ replicate n 32 @ d"
proof -
  have "no_linebreak (replicate n 32)"
    by (simp add: no_linebreak_def list_all_iff islinebreak_def)
  with PREFIX_clean(1) DWARVES_no_space(4) [OF d]
  show "no_linebreak (PREFIX @ replicate n 32 @ d)"
    by (simp add: no_linebreak_def)
  show "strip (PREFIX @ replicate n 32 @ d) = PREFIX @ replicate n 32 @ d"
    using PREFIX_clean DWARVES_no_space [OF d] by (intro strip_id) simp_all
qed

lemma spaced_label_not_reference:
  assumes "0 < n" shows "replicate n 32 @ d \<notin> set DWARVES"
proof
  assume "replicate n 32 @ d \<in> set DWARVES"
  then have "\<not> isspace (hd (replicate n 32 @ d))" by (rule DWARVES_no_space(2))
  moreover from assms have "hd (replicate n 32 @ d) = 32" by (cases n) simp_all
  ultimately show False by (simp add: isspace_def)
qed

section \<open>The verifier and the state of the module\<close>




lemma verify_announce_DWARVES: "verify (announce DWARVES)"
proof -
  have "verify (announce DWARVES) \<longleftrightarrow> mset DWARVES = mset DWARVES"
    by (rule verify_announce) (rule subset_refl)
  then show ?thesis by (simp only:)
qed

section \<open>Properties of the verifier and of the program\<close>

text \<open>
  C1. For every output, \<open>verify\<close> returns true if and only if the lines that are
  non-empty after stripping number 14, each of them, stripped, starts with the prefix,
  and the multiset of what follows the prefix (15 characters) in the stripped lines is
  the multiset of the 14 reference labels.
\<close>

theorem verify_iff_count_prefix_multiset:
  "verify output \<longleftrightarrow>
     length (filter (\<lambda>ln. strip ln \<noteq> []) (splitlines output)) = 14
     \<and> list_all (\<lambda>ln. startswith (strip ln) (ustr ''Hi! My name is ''))
          (filter (\<lambda>ln. strip ln \<noteq> []) (splitlines output))
     \<and> mset (map (\<lambda>ln. drop 15 (strip ln))
          (filter (\<lambda>ln. strip ln \<noteq> []) (splitlines output))) = mset DWARVES"
  unfolding verify_iff length_DWARVES length_PREFIX
  by (simp add: lines_of_def list_all_iff PREFIX_def comp_def)

text \<open>
  C7. As stated, for every outcome and any exception, the property fails: an exception
  that is not derived from \<open>Exception\<close> is not caught by \<open>except Exception\<close>. When the
  invocation raises \<open>KeyboardInterrupt\<close>, \<open>main\<close> prints nothing and the exception
  leaves it.
\<close>

theorem main_uncaught_counterexample:
  "main (Raised KeyboardInterrupt) = ([], Some KeyboardInterrupt)"
  by (simp add: main_def)

text \<open>
  C7, amended. For every outcome of the invocation other than an exception that is
  not derived from \<open>Exception\<close>, \<open>main\<close> returns after printing exactly one line, \<open>Yes\<close>
  or \<open>No\<close>: \<open>No\<close> without a call of \<open>verify\<close> when the invocation raises an exception
  derived from \<open>Exception\<close> (the failure to start and the timeout are such) or the
  return code is not zero; otherwise \<open>verify\<close> is called once, on the captured standard
  output, and \<open>Yes\<close> is printed exactly when it returns true. An exception that is not
  derived from \<open>Exception\<close> leaves \<open>main\<close> uncaught, and nothing is printed.
\<close>

theorem main_prints_one_line:
  "(is_Exception e \<longrightarrow> main (Raised e) = ([Print ''No''], None))
   \<and> is_Exception FileNotFoundError \<and> is_Exception TimeoutExpired
   \<and> (\<not> is_Exception e' \<longrightarrow> main (Raised e') = ([], Some e'))
   \<and> (returncode \<noteq> 0 \<longrightarrow> main (Completed returncode stdout) = ([Print ''No''], None))
   \<and> (main (Completed 0 stdout) =
        ([Verify stdout, Print (if verify stdout then ''Yes'' else ''No'')], None))
   \<and> ((case r of Raised x \<Rightarrow> is_Exception x | Completed _ _ \<Rightarrow> True) \<longrightarrow>
        snd (main r) = None
        \<and> (\<exists>line. filter (\<lambda>ev. case ev of Print _ \<Rightarrow> True | Verify _ \<Rightarrow> False) (fst (main r))
              = [Print line] \<and> (line = ''Yes'' \<or> line = ''No'')))"
  by (cases r) (simp_all add: main_def)

theorem main_prints_one_line_witness:
  "is_Exception TimeoutExpired \<and> main (Raised TimeoutExpired) = ([Print ''No''], None)
   \<and> \<not> is_Exception SystemExit \<and> main (Raised SystemExit) = ([], Some SystemExit)
   \<and> (1::int) \<noteq> 0
   \<and> main (Completed 1 (announce DWARVES)) = ([Print ''No''], None)
   \<and> snd (main (Completed 0 (announce DWARVES))) = None
   \<and> fst (main (Completed 0 (announce DWARVES)))
       = [Verify (announce DWARVES), Print ''Yes'']"
  using main_prints_one_line [of TimeoutExpired SystemExit 1 "announce DWARVES"
      "Completed 0 (announce DWARVES)"]
    main_prints_one_line [of TimeoutExpired SystemExit 0 "announce DWARVES"
      "Completed 0 (announce DWARVES)"]
    verify_announce_DWARVES
  by simp

text \<open>
  C2. For every permutation \<open>p\<close> of the 14 reference labels, \<open>verify\<close> returns true on
  the text with one line \<open>Hi! My name is <label>\<close> per label of \<open>p\<close>, in that order,
  each line followed by a newline. And the order of the lines never matters: two
  texts of newline-terminated lines that are permutations of each other get the same
  result.
\<close>

theorem verify_any_order:
  "(mset p = mset DWARVES \<longrightarrow> verify (announce p))
   \<and> (list_all no_linebreak ls \<and> mset ls' = mset ls
        \<longrightarrow> verify (text_of_lines ls') = verify (text_of_lines ls))"
proof (intro conjI impI)
  assume p: "mset p = mset DWARVES"
  have "set p \<subseteq> set DWARVES"
    using mset_eq_setD [OF p] by (simp only: subset_refl)
  then have "verify (announce p) \<longleftrightarrow> mset p = mset DWARVES"
    by (rule verify_announce)
  with p show "verify (announce p)" by (simp only:)
next
  assume a: "list_all no_linebreak ls \<and> mset ls' = mset ls"
  then have ls: "list_all no_linebreak ls" and eq: "mset ls' = mset ls" by blast+
  have "set ls' = set ls" using eq by (rule mset_eq_setD)
  with ls have ls': "list_all no_linebreak ls'" by (simp only: list_all_iff)
  have "mset (lines_of (text_of_lines ls')) = mset (lines_of (text_of_lines ls))"
    unfolding lines_of_text_of_lines [OF ls] lines_of_text_of_lines [OF ls']
    using eq by (rule mset_nonblank_stripped)
  then show "verify (text_of_lines ls') = verify (text_of_lines ls)"
    by (rule verify_mset_lines)
qed

theorem verify_any_order_witness:
  "mset (rev DWARVES) = mset DWARVES \<and> verify (announce (rev DWARVES))
   \<and> list_all no_linebreak [ustr ''Hi! My name is Balin'', ustr ''Dvalinn'']
   \<and> mset [ustr ''Dvalinn'', ustr ''Hi! My name is Balin'']
       = mset [ustr ''Hi! My name is Balin'', ustr ''Dvalinn'']
   \<and> verify (text_of_lines [ustr ''Dvalinn'', ustr ''Hi! My name is Balin''])
       = verify (text_of_lines [ustr ''Hi! My name is Balin'', ustr ''Dvalinn''])"
proof -
  have 1: "mset (rev DWARVES) = mset DWARVES" by (rule mset_rev)
  have 2: "list_all no_linebreak [ustr ''Hi! My name is Balin'', ustr ''Dvalinn'']"
    by (simp add: no_linebreak_def islinebreak_def ustr_def)
  have 3: "mset [ustr ''Dvalinn'', ustr ''Hi! My name is Balin'']
       = mset [ustr ''Hi! My name is Balin'', ustr ''Dvalinn'']"
    by (simp add: add.commute)
  show ?thesis
    using 1 2 3 verify_any_order [of "rev DWARVES" "[ustr ''Hi! My name is Balin'', ustr ''Dvalinn'']"
      "[ustr ''Dvalinn'', ustr ''Hi! My name is Balin'']"]
    by blast
qed

text \<open>
  C3. When the number of lines that are non-empty after stripping is not 14, \<open>verify\<close>
  returns false, whatever the lines are. In particular: for every permutation \<open>p\<close> of
  the reference labels, the announcement of \<open>p\<close> with the label at any position \<open>i\<close>
  left out (13 correct lines) is rejected, and so is the announcement of \<open>p\<close> with an
  extra line \<open>e\<close> (any line that is not blank, so that it counts) put in at any
  position \<open>j\<close>.
\<close>

theorem verify_false_on_line_count:
  "(length (filter (\<lambda>ln. strip ln \<noteq> []) (splitlines output)) \<noteq> 14 \<longrightarrow> \<not> verify output)
   \<and> (mset p = mset DWARVES \<and> i < 14 \<longrightarrow> \<not> verify (announce (take i p @ drop (Suc i) p)))
   \<and> (mset p = mset DWARVES \<and> j \<le> 14 \<and> no_linebreak e \<and> \<not> blank e
        \<longrightarrow> \<not> verify (text_of_lines
              (take j (map (\<lambda>l. PREFIX @ l) p) @ e # drop j (map (\<lambda>l. PREFIX @ l) p))))"
proof (intro conjI impI)
  assume "length (filter (\<lambda>ln. strip ln \<noteq> []) (splitlines output)) \<noteq> 14"
  then show "\<not> verify output"
    by (simp add: verify_iff lines_of_def length_DWARVES)
next
  assume a: "mset p = mset DWARVES \<and> i < 14"
  then have p: "mset p = mset DWARVES" ..
  have len: "length p = 14"
    using mset_eq_length [OF p] by (simp only: length_DWARVES)
  have sub: "set p \<subseteq> set DWARVES"
    using mset_eq_setD [OF p] by (simp only: subset_refl)
  let ?q = "take i p @ drop (Suc i) p"
  have "set (take i p) \<subseteq> set p" "set (drop (Suc i) p) \<subseteq> set p"
    by (rule set_take_subset, rule set_drop_subset)
  with sub have q: "set ?q \<subseteq> set DWARVES"
    by (simp only: set_append) blast
  note label_lines [OF q]
  moreover have "length (map (\<lambda>l. PREFIX @ l) ?q) \<noteq> length DWARVES"
    using a len by (simp add: length_DWARVES)
  ultimately show "\<not> verify (announce ?q)"
    unfolding announce_def by (rule verify_text_of_lines_length)
next
  assume a: "mset p = mset DWARVES \<and> j \<le> 14 \<and> no_linebreak e \<and> \<not> blank e"
  then have p: "mset p = mset DWARVES" ..
  have len: "length p = 14"
    using mset_eq_length [OF p] by (simp only: length_DWARVES)
  have sub: "set p \<subseteq> set DWARVES"
    using mset_eq_setD [OF p] by (simp only: subset_refl)
  let ?ls = "map (\<lambda>l. PREFIX @ l) p"
  let ?q = "take j ?ls @ e # drop j ?ls"
  have t: "set (take j ?ls) \<subseteq> set ?ls" and d: "set (drop j ?ls) \<subseteq> set ?ls"
    by (rule set_take_subset, rule set_drop_subset)
  have "\<forall>l \<in> set ?ls. no_linebreak l \<and> \<not> blank l"
    using label_lines [OF sub] by (simp only: list_all_iff) blast
  with t d have "\<forall>l \<in> set (take j ?ls) \<union> set (drop j ?ls). no_linebreak l \<and> \<not> blank l"
    by blast
  with a have "\<forall>l \<in> set ?q. no_linebreak l \<and> \<not> blank l"
    by (simp only: set_append set_simps) blast
  then have "list_all no_linebreak ?q" "list_all (\<lambda>l. \<not> blank l) ?q"
    by (simp_all only: list_all_iff) blast+
  moreover have "length ?q \<noteq> length DWARVES"
    using a len by (simp add: length_DWARVES)
  ultimately show "\<not> verify (text_of_lines ?q)"
    by (rule verify_text_of_lines_length)
qed

theorem verify_false_on_line_count_witness:
  "length (filter (\<lambda>ln. strip ln \<noteq> []) (splitlines (ustr ''Hi! My name is Balin''))) \<noteq> 14
   \<and> \<not> verify (ustr ''Hi! My name is Balin'')
   \<and> mset DWARVES = mset DWARVES \<and> (3::nat) < 14
   \<and> \<not> verify (announce (take 3 DWARVES @ drop (Suc 3) DWARVES))
   \<and> (14::nat) \<le> 14 \<and> no_linebreak (ustr ''Hi! My name is Bilbo'')
   \<and> \<not> blank (ustr ''Hi! My name is Bilbo'')
   \<and> \<not> verify (text_of_lines
         (take 14 (map (\<lambda>l. PREFIX @ l) DWARVES) @ ustr ''Hi! My name is Bilbo''
            # drop 14 (map (\<lambda>l. PREFIX @ l) DWARVES)))"
proof -
  have 1: "length (filter (\<lambda>ln. strip ln \<noteq> []) (splitlines (ustr ''Hi! My name is Balin''))) \<noteq> 14"
    by (simp add: splitlines_def ustr_def islinebreak_def)
  have 2: "no_linebreak (ustr ''Hi! My name is Bilbo'')"
    by (simp add: no_linebreak_def ustr_def islinebreak_def)
  have 3: "\<not> blank (ustr ''Hi! My name is Bilbo'')"
    by (simp add: blank_def ustr_def isspace_def)
  have 4: "(3::nat) < 14" "(14::nat) \<le> 14" by simp_all
  show ?thesis
    using 1 2 3 4 verify_false_on_line_count [of "ustr ''Hi! My name is Balin''" DWARVES 3 14
        "ustr ''Hi! My name is Bilbo''"]
    by blast
qed

text \<open>
  C4. For distinct reference labels \<open>A\<close> and \<open>B\<close>, a text of correctly prefixed
  lines whose labels are the reference labels with \<open>B\<close> left out and \<open>A\<close> once more
  (in any order) has 14 counted lines, each with the prefix, and \<open>verify\<close> returns
  false: the duplicate is found by the comparison of the counters, not by the count of
  the lines.
\<close>

theorem verify_false_on_duplicate:
  "A \<in> set DWARVES \<and> B \<in> set DWARVES \<and> A \<noteq> B
   \<and> mset ls = mset DWARVES - {#B#} + {#A#}
   \<longrightarrow> length (lines_of (announce ls)) = 14
       \<and> list_all (\<lambda>ln. startswith ln PREFIX) (lines_of (announce ls))
       \<and> \<not> verify (announce ls)"
proof (rule impI)
  assume a: "A \<in> set DWARVES \<and> B \<in> set DWARVES \<and> A \<noteq> B
     \<and> mset ls = mset DWARVES - {#B#} + {#A#}"
  then have A: "A \<in> set DWARVES" and B: "B \<in> set DWARVES" and AB: "A \<noteq> B"
    and ls: "mset ls = mset DWARVES - {#B#} + {#A#}" by blast+
  have "set_mset (mset ls) \<subseteq> set DWARVES"
    unfolding ls using A by (auto dest: in_diffD)
  then have sub: "set ls \<subseteq> set DWARVES" by simp
  have "size (mset ls) = size (mset DWARVES)"
    unfolding ls using B by (simp add: size_Diff_singleton length_DWARVES)
  then have len: "length ls = 14" by (simp add: length_DWARVES)
  have "count (mset ls) B = 0"
    unfolding ls using AB count_DWARVES [OF B] by simp
  have ne: "mset ls \<noteq> mset DWARVES"
  proof
    assume "mset ls = mset DWARVES"
    then have "count (mset ls) B = count (mset DWARVES) B" by (simp only:)
    with \<open>count (mset ls) B = 0\<close> count_DWARVES [OF B] show False by (simp only:)
  qed
  have l: "lines_of (announce ls) = map (\<lambda>l. PREFIX @ l) ls"
    using sub by (rule lines_of_announce)
  have "verify (announce ls) \<longleftrightarrow> mset ls = mset DWARVES"
    using sub by (rule verify_announce)
  with ne have "\<not> verify (announce ls)" by (simp only: not_False_eq_True)
  moreover have "length (lines_of (announce ls)) = 14"
    unfolding l using len by simp
  moreover have "list_all (\<lambda>ln. startswith ln PREFIX) (lines_of (announce ls))"
    unfolding l by (simp add: list_all_iff)
  ultimately show "length (lines_of (announce ls)) = 14
       \<and> list_all (\<lambda>ln. startswith ln PREFIX) (lines_of (announce ls))
       \<and> \<not> verify (announce ls)" by blast
qed

theorem verify_false_on_duplicate_witness:
  "ustr ''Balin'' \<in> set DWARVES \<and> ustr ''Gandalfr'' \<in> set DWARVES
   \<and> ustr ''Balin'' \<noteq> ustr ''Gandalfr''
   \<and> mset (butlast DWARVES @ [ustr ''Balin''])
       = mset DWARVES - {#ustr ''Gandalfr''#} + {#ustr ''Balin''#}
   \<and> length (lines_of (announce (butlast DWARVES @ [ustr ''Balin'']))) = 14
   \<and> \<not> verify (announce (butlast DWARVES @ [ustr ''Balin'']))"
proof -
  have 1: "ustr ''Balin'' \<in> set DWARVES" "ustr ''Gandalfr'' \<in> set DWARVES"
    by (simp_all add: DWARVES_def)
  have 2: "ustr ''Balin'' \<noteq> ustr ''Gandalfr''"
    by (simp add: ustr_def)
  have "DWARVES = butlast DWARVES @ [ustr ''Gandalfr'']"
    by (simp add: DWARVES_def)
  then have "mset DWARVES = mset (butlast DWARVES) + {#ustr ''Gandalfr''#}"
    by (metis mset_append mset_single_iff_right mset.simps(2) add_mset_add_single mset.simps(1) empty_neutral(1))
  then have 3: "mset (butlast DWARVES @ [ustr ''Balin''])
       = mset DWARVES - {#ustr ''Gandalfr''#} + {#ustr ''Balin''#}"
    by simp
  show ?thesis
    using 1 2 3 verify_false_on_duplicate
      [of "ustr ''Balin''" "ustr ''Gandalfr''" "butlast DWARVES @ [ustr ''Balin'']"]
    by blast
qed

text \<open>
  C5. When some line of the output is not blank and, stripped, does not start with the
  prefix \<open>Hi! My name is \<close>, \<open>verify\<close> returns false, whatever the rest of the output
  and whatever the line holds (a reference label alone, for instance).
\<close>

theorem verify_false_on_missing_prefix:
  "ln \<in> set (splitlines output) \<and> strip ln \<noteq> [] \<and> \<not> startswith (strip ln) PREFIX
     \<longrightarrow> \<not> verify output"
  using verify_line_startswith [of "output" ln] by blast

theorem verify_false_on_missing_prefix_witness:
  "ustr ''Balin'' \<in> set (splitlines (announce (butlast DWARVES) @ ustr ''Balin''))
   \<and> strip (ustr ''Balin'') \<noteq> [] \<and> \<not> startswith (strip (ustr ''Balin'')) PREFIX
   \<and> \<not> verify (announce (butlast DWARVES) @ ustr ''Balin'')"
proof -
  have 1: "ustr ''Balin'' \<in> set (splitlines (announce (butlast DWARVES) @ ustr ''Balin''))"
    by (simp add: announce_def text_of_lines_def DWARVES_def PREFIX_def ustr_def splitlines_def
        islinebreak_def)
  have s: "strip (ustr ''Balin'') = ustr ''Balin''"
    by (simp add: strip_def ustr_def isspace_def)
  have 2: "strip (ustr ''Balin'') \<noteq> []"
    unfolding s by (simp add: ustr_def)
  have 3: "\<not> startswith (strip (ustr ''Balin'')) PREFIX"
    unfolding s by (simp add: startswith_def PREFIX_def ustr_def)
  show ?thesis
    using 1 2 3 verify_false_on_missing_prefix
      [of "ustr ''Balin''" "announce (butlast DWARVES) @ ustr ''Balin''"]
    by blast
qed




text \<open>
  C10. Every label that \<open>verify\<close> extracts (what follows the prefix in a counted line
  that has the prefix) is non-empty and does not end in whitespace. And a line that is
  the prefix alone, with or without whitespace after it, makes \<open>verify\<close> return false:
  stripped, it has lost the space that ends the prefix.
\<close>

theorem extracted_label_nonempty:
  "(ln \<in> set (lines_of output) \<and> startswith ln PREFIX
      \<longrightarrow> drop (length PREFIX) ln \<noteq> [] \<and> \<not> isspace (last (drop (length PREFIX) ln)))
   \<and> (PREFIX @ w \<in> set (splitlines output) \<and> blank w \<longrightarrow> \<not> verify output)"
proof (rule conjI; rule impI)
  assume a: "ln \<in> set (lines_of output) \<and> startswith ln PREFIX"
  then have e: "ln \<noteq> []" "\<not> isspace (last ln)"
    using lines_of_ends [of ln "output"] by blast+
  from a have s: "startswith ln PREFIX" by blast
  show "drop (length PREFIX) ln \<noteq> [] \<and> \<not> isspace (last (drop (length PREFIX) ln))"
    using label_of_line [OF e s] e(2) by simp
next
  assume a: "PREFIX @ w \<in> set (splitlines output) \<and> blank w"
  then have w: "blank w" by blast
  from a have m: "PREFIX @ w \<in> set (splitlines output)" by blast
  show "\<not> verify output"
    using verify_line_startswith [OF _ m] bare_prefix_line [OF w] by blast
qed

theorem extracted_label_nonempty_witness:
  "ustr ''Hi! My name is Balin'' \<in> set (lines_of (ustr ''  Hi! My name is Balin  ''))
   \<and> startswith (ustr ''Hi! My name is Balin'') PREFIX
   \<and> drop (length PREFIX) (ustr ''Hi! My name is Balin'') \<noteq> []
   \<and> \<not> isspace (last (drop (length PREFIX) (ustr ''Hi! My name is Balin'')))
   \<and> PREFIX @ [32, 32] \<in> set (splitlines (ustr ''Hi! My name is   ''))
   \<and> blank [32, 32]
   \<and> \<not> verify (ustr ''Hi! My name is   '')"
proof -
  have 1: "ustr ''Hi! My name is Balin'' \<in> set (lines_of (ustr ''  Hi! My name is Balin  ''))"
    by (simp add: lines_of_def splitlines_def strip_def ustr_def islinebreak_def isspace_def)
  have 2: "startswith (ustr ''Hi! My name is Balin'') PREFIX"
    by (simp add: startswith_def PREFIX_def ustr_def)
  have 3: "PREFIX @ [32, 32] \<in> set (splitlines (ustr ''Hi! My name is   ''))"
    by (simp add: splitlines_def PREFIX_def ustr_def islinebreak_def)
  have 4: "blank [32, 32]"
    by (simp add: blank_def isspace_def)
  show ?thesis
    using 1 2 3 4 extracted_label_nonempty
      [of "ustr ''Hi! My name is Balin''" "ustr ''  Hi! My name is Balin  ''" "[32, 32]"]
      extracted_label_nonempty
      [of "ustr ''Hi! My name is Balin''" "ustr ''Hi! My name is   ''" "[32, 32]"]
    by blast
qed

text \<open>
  C6. For every output, inserting whitespace-only text (empty lines, lines of
  whitespace, with their line boundaries) before, between or after its lines, any
  number of times, leaves the result of \<open>verify\<close> unchanged: such lines are left out
  before the lines are counted and are never looked at again.
\<close>

theorem verify_ignores_blank_lines:
  "rtranclp blank_insertion s s' \<longrightarrow> verify s' = verify s"
  using blank_insertions_lines [of s s'] verify_cong_lines [of s' s] by blast

theorem verify_ignores_blank_lines_witness:
  "rtranclp blank_insertion
     ((ustr ''Hi! My name is Balin'' @ [10]) @ ustr ''Hi! My name is Dvalinn'')
     (((ustr ''Hi! My name is Balin'' @ [10]) @ [32, 9, 10, 10] @ ustr ''Hi! My name is Dvalinn'')
        @ [10, 32, 10])
   \<and> verify (((ustr ''Hi! My name is Balin'' @ [10]) @ [32, 9, 10, 10]
                @ ustr ''Hi! My name is Dvalinn'') @ [10, 32, 10])
     = verify ((ustr ''Hi! My name is Balin'' @ [10]) @ ustr ''Hi! My name is Dvalinn'')"
proof -
  have "blank_insertion
     ((ustr ''Hi! My name is Balin'' @ [10]) @ ustr ''Hi! My name is Dvalinn'')
     ((ustr ''Hi! My name is Balin'' @ [10]) @ [32, 9, 10, 10] @ ustr ''Hi! My name is Dvalinn'')"
    by (rule at_line_start) (simp_all add: blank_def isspace_def islinebreak_def)
  moreover have "blank_insertion
     ((ustr ''Hi! My name is Balin'' @ [10]) @ [32, 9, 10, 10] @ ustr ''Hi! My name is Dvalinn'')
     (((ustr ''Hi! My name is Balin'' @ [10]) @ [32, 9, 10, 10] @ ustr ''Hi! My name is Dvalinn'')
        @ [10, 32, 10])"
    by (rule at_end) (simp add: blank_def isspace_def)
  ultimately have "rtranclp blank_insertion
     ((ustr ''Hi! My name is Balin'' @ [10]) @ ustr ''Hi! My name is Dvalinn'')
     (((ustr ''Hi! My name is Balin'' @ [10]) @ [32, 9, 10, 10] @ ustr ''Hi! My name is Dvalinn'')
        @ [10, 32, 10])"
    by (rule rtranclp.intros(2) [OF r_into_rtranclp])
  then show ?thesis
    using verify_ignores_blank_lines by blast
qed

text \<open>
  C8. As stated, the claim fails: spaces after the label of a correctly prefixed line
  are stripped with the rest of the surrounding whitespace, so the line still has the
  prefix, its label is the reference label, and \<open>verify\<close> returns true on the 14
  correct lines of which one has a space after its label.
\<close>

theorem trailing_space_counterexample:
  "startswith (strip (PREFIX @ ustr ''Gandalfr'' @ [32])) PREFIX
   \<and> verify (announce (butlast DWARVES) @ PREFIX @ ustr ''Gandalfr'' @ [32, 10])"
proof -
  have "strip ((PREFIX @ ustr ''Gandalfr'') @ [32]) = strip (PREFIX @ ustr ''Gandalfr'')"
    by (rule strip_append_blank) (simp add: isspace_def)
  moreover have g: "ustr ''Gandalfr'' \<in> set DWARVES" by (simp add: DWARVES_def)
  ultimately have 1: "startswith (strip (PREFIX @ ustr ''Gandalfr'' @ [32])) PREFIX"
    using label_line(2) [OF g] by simp
  have e: "announce DWARVES = announce (butlast DWARVES) @ PREFIX @ ustr ''Gandalfr'' @ [10]"
    by (simp add: announce_def text_of_lines_def DWARVES_def)
  have "lines_of ((announce (butlast DWARVES) @ PREFIX @ ustr ''Gandalfr'') @ [32] @ 10 # [])
      = lines_of ((announce (butlast DWARVES) @ PREFIX @ ustr ''Gandalfr'') @ 10 # [])"
    by (rule lines_of_blank_before_break) (simp_all add: isspace_def islinebreak_def)
  then have "verify (announce (butlast DWARVES) @ PREFIX @ ustr ''Gandalfr'' @ [32, 10])
      = verify (announce DWARVES)"
    using verify_cong_lines [of "(announce (butlast DWARVES) @ PREFIX @ ustr ''Gandalfr'') @ [32] @ 10 # []"
        "(announce (butlast DWARVES) @ PREFIX @ ustr ''Gandalfr'') @ 10 # []"]
    by (simp add: e)
  moreover have "verify (announce DWARVES) \<longleftrightarrow> mset DWARVES = mset DWARVES"
    by (rule verify_announce) (rule subset_refl)
  ultimately show ?thesis using 1 by simp
qed

text \<open>
  C8, amended. Each line is stripped of all surrounding whitespace before the prefix
  is matched. Spaces added after the label of a line are stripped with it and never
  change the result of \<open>verify\<close>. Spaces added between the prefix and a reference
  label are not stripped: the line still has the prefix, the spaces are part of the
  extracted label, which then is no reference label, and \<open>verify\<close> returns false.
\<close>

theorem strip_scope:
  "(islinebreak t \<longrightarrow>
      strip (PREFIX @ d @ replicate n 32) = strip (PREFIX @ d)
      \<and> verify (a @ PREFIX @ d @ replicate n 32 @ t # b) = verify (a @ PREFIX @ d @ t # b))
   \<and> (d' \<in> set DWARVES \<and> 0 < n' \<and> (a' = [] \<or> islinebreak (last a')) \<and> islinebreak t' \<longrightarrow>
      startswith (strip (PREFIX @ replicate n' 32 @ d')) PREFIX
      \<and> drop (length PREFIX) (strip (PREFIX @ replicate n' 32 @ d')) = replicate n' 32 @ d'
      \<and> \<not> verify (a' @ PREFIX @ replicate n' 32 @ d' @ t' # b'))"
proof (rule conjI; rule impI)
  assume t: "islinebreak t"
  have "strip ((PREFIX @ d) @ replicate n 32) = strip (PREFIX @ d)"
    using spaces_blank by (rule strip_append_blank)
  moreover have "lines_of ((a @ PREFIX @ d) @ replicate n 32 @ t # b) = lines_of ((a @ PREFIX @ d) @ t # b)"
    using spaces_blank t by (rule lines_of_blank_before_break)
  then have "verify ((a @ PREFIX @ d) @ replicate n 32 @ t # b) = verify ((a @ PREFIX @ d) @ t # b)"
    by (rule verify_cong_lines)
  ultimately show "strip (PREFIX @ d @ replicate n 32) = strip (PREFIX @ d)
      \<and> verify (a @ PREFIX @ d @ replicate n 32 @ t # b) = verify (a @ PREFIX @ d @ t # b)"
    by simp
next
  assume h: "d' \<in> set DWARVES \<and> 0 < n' \<and> (a' = [] \<or> islinebreak (last a')) \<and> islinebreak t'"
  then have d: "d' \<in> set DWARVES" and n: "0 < n'" and a: "a' = [] \<or> islinebreak (last a')"
    and t: "islinebreak t'" by blast+
  let ?l = "PREFIX @ replicate n' 32 @ d'"
  note l = spaced_label_line [OF d, of n']
  have nb: "\<not> blank ?l" by simp
  have "lines_of (a' @ ?l @ t' # b') = lines_of a' @ nonblank_stripped [?l] @ lines_of b'"
    using a l(1) t by (rule lines_of_with_line)
  then have "?l \<in> set (lines_of (a' @ ?l @ t' # b'))"
    using nb l(2) by (simp add: nonblank_stripped_Cons)
  then have m: "replicate n' 32 @ d'
      \<in> set (map (drop (length PREFIX)) (lines_of (a' @ ?l @ t' # b')))"
    by force
  have "\<not> verify (a' @ ?l @ t' # b')"
  proof
    assume "verify (a' @ ?l @ t' # b')"
    then have "set (map (drop (length PREFIX)) (lines_of (a' @ ?l @ t' # b'))) = set DWARVES"
      using verify_labels mset_eq_setD by blast
    with m spaced_label_not_reference [OF n] show False by blast
  qed
  then show "startswith (strip ?l) PREFIX
      \<and> drop (length PREFIX) (strip ?l) = replicate n' 32 @ d'
      \<and> \<not> verify (a' @ PREFIX @ replicate n' 32 @ d' @ t' # b')"
    unfolding l(2) by simp
qed

theorem strip_scope_witness:
  "islinebreak 10
   \<and> verify (announce (butlast DWARVES) @ PREFIX @ ustr ''Gandalfr'' @ replicate 2 32 @ 10 # [])
      = verify (announce (butlast DWARVES) @ PREFIX @ ustr ''Gandalfr'' @ 10 # [])
   \<and> ustr ''Gandalfr'' \<in> set DWARVES \<and> (0::nat) < 2
   \<and> (announce (butlast DWARVES) = [] \<or> islinebreak (last (announce (butlast DWARVES))))
   \<and> \<not> verify (announce (butlast DWARVES) @ PREFIX @ replicate 2 32 @ ustr ''Gandalfr'' @ 10 # [])"
proof -
  have 1: "islinebreak 10" by (rule islinebreak_10)
  have 2: "ustr ''Gandalfr'' \<in> set DWARVES" by (simp add: DWARVES_def)
  have 3: "(0::nat) < 2" by simp
  have 4: "announce (butlast DWARVES) = [] \<or> islinebreak (last (announce (butlast DWARVES)))"
    by (simp add: announce_def text_of_lines_def DWARVES_def islinebreak_def)
  show ?thesis
    using 1 2 3 4 strip_scope [of 10 "ustr ''Gandalfr''" 2 "announce (butlast DWARVES)" "[]"
        "ustr ''Gandalfr''" 2 "announce (butlast DWARVES)" 10 "[]"]
    by blast
qed

end
